theory Spec2Isabelle
  imports Main "HOL-Library.Word" "HOL-Library.Monad_Syntax"
begin

unbundle bit_operations_syntax

section \<open>The integer types of bitmanipulation.hpp\<close>

text \<open>
  The header works on the unsigned integer types of C++. A value of an unsigned type
  \<open>T\<close> of \<open>W\<close> bits is an \<open>'a word\<close> with \<open>LENGTH('a) = W\<close>
  (\<open>sizeof(value) * CHAR_BIT\<close> in the source). As on the common 64-bit platforms,
  \<open>uintmax_t\<close>, the widest unsigned integer type, has 64 bits and \<open>int\<close> has 32. A count of type \<open>unsigned\<close> is a \<open>nat\<close>: the counters
  of the header never exceed the width of their operand.
\<close>

type_synonym uintmax_t = "64 word"

definition int_width :: nat where
  "int_width = 32"

text \<open>
  The value of an arithmetic expression (\<open>+\<close>, \<open>-\<close>, \<open>~\<close>) whose operand has
  type \<open>T\<close>, as an integer. An operand narrower than \<open>int\<close> is promoted to
  \<open>int\<close>, where the results that arise in this header are exact (they lie between
  \<open>- 2 ^ 16 - 1\<close> and \<open>2 ^ 16\<close> for the 8 and 16 bit types); an operand at least as
  wide as \<open>int\<close> keeps its unsigned type, and the result is reduced modulo
  \<open>2 ^ W\<close>.
\<close>

definition arith_result :: "'a::len itself \<Rightarrow> int \<Rightarrow> int" where
  "arith_result T k = (if LENGTH('a) < int_width then k else take_bit LENGTH('a) k)"

text \<open>\<open>static_cast<T>(k)\<close>: conversion to an unsigned type reduces modulo \<open>2 ^ W\<close>.\<close>

definition static_cast :: "int \<Rightarrow> 'a::len word" where
  "static_cast k = word_of_int k"

text \<open>
  \<open>x << n\<close> on an unsigned operand that is not promoted. The behaviour of C++ is
  undefined when the count is not below the width of the operand: that is \<open>None\<close>.
\<close>

definition shl :: "'a::len word \<Rightarrow> nat \<Rightarrow> 'a word option" where
  "shl x n = (if n < LENGTH('a) then Some (push_bit n x) else None)"

section \<open>Masks, setting and clearing bits\<close>

text \<open>
  \<open>mask(bits, shift)\<close>, named \<open>mask'\<close> here because \<open>mask\<close> is a constant of the
  library: \<open>return ~(static_cast<uintmax_t>(~0) << bits) << shift;\<close>
  The literal \<open>0\<close> is an \<open>int\<close>, so \<open>~0\<close> is \<open>-1\<close>, converted to the all-ones
  value of \<open>uintmax_t\<close>. Both shifts act on \<open>uintmax_t\<close>.
\<close>

definition mask' :: "nat \<Rightarrow> nat \<Rightarrow> uintmax_t option" where
  "mask' bits shift =
     do { a \<leftarrow> shl (static_cast (NOT 0) :: uintmax_t) bits;
          shl (NOT a) shift }"

text \<open>
  \<open>const T mask { static_cast<T>(bitmanipulation::mask(bits, shift)) }; return value | mask;\<close>
\<close>

definition set_bits :: "'a::len word \<Rightarrow> nat \<Rightarrow> nat \<Rightarrow> 'a word option" where
  "set_bits val bits shift =
     do { m \<leftarrow> mask' bits shift;
          let mask = (static_cast (uint m) :: 'a word);
          Some (val OR mask) }"

text \<open>
  \<open>const T mask { static_cast<T>(bitmanipulation::mask(bits, shift)) };
  return value & static_cast<T>(~mask);\<close>
  The two operands of \<open>|\<close> and \<open>&\<close> have type \<open>T\<close> and so has the result: promotion
  does not change them.
\<close>

definition clear_bits :: "'a::len word \<Rightarrow> nat \<Rightarrow> nat \<Rightarrow> 'a word option" where
  "clear_bits val bits shift =
     do { m \<leftarrow> mask' bits shift;
          let mask = (static_cast (uint m) :: 'a word);
          Some (val AND static_cast (arith_result TYPE('a) (NOT (uint mask)))) }"

section \<open>Population count\<close>

text \<open>
  \<open>for (; value; count++) { value = value & static_cast<T>(value - 1); }\<close>
  as a function of the two loop variables.
\<close>

definition count_body :: "'a::len word \<Rightarrow> 'a word" where
  "count_body val = val AND static_cast (arith_result TYPE('a) (uint val - 1))"

function (domintros) count_loop :: "'a::len word \<Rightarrow> nat \<Rightarrow> nat" where
  "count_loop val count =
     (if val \<noteq> 0 then count_loop (count_body val) (count + 1) else count)"
  by pat_completeness auto

termination
proof (relation "measure (\<lambda>(val, count). unat val)")
  show "wf (measure (\<lambda>(val :: 'a word, count :: nat). unat val))"
    by simp
next
  fix val :: "'a word" and count :: nat
  assume nz: "val \<noteq> 0"
  have "static_cast (arith_result TYPE('a) k) = (word_of_int k :: 'a word)" for k
    by (simp add: static_cast_def arith_result_def bit_eq_iff bit_simps)
  then have "count_body val = val AND (val - 1)"
    by (simp add: count_body_def)
  then have "unat (count_body val) \<le> unat (val - 1)"
    by (simp add: word_and_le1 word_le_nat_alt [symmetric])
  moreover have "unat (val - 1) < unat val"
    using nz by (rule measure_unat)
  ultimately show "((count_body val, count + 1), (val, count)) \<in> measure (\<lambda>(val, count). unat val)"
    by simp
qed

declare count_loop.simps [simp del]

definition count_bits_set :: "'a::len word \<Rightarrow> nat" where
  "count_bits_set val = count_loop val 0"

definition popcnt :: "'a::len word \<Rightarrow> nat" where
  "popcnt val = count_bits_set val"

section \<open>Leading and trailing zeroes\<close>

text \<open>
  \<open>for (unsigned i = 1; i <= len; i++) { if (mask(1, len - i) & value) break; count++; }\<close>
  The operand \<open>value\<close> of \<open>&\<close> is converted to \<open>uintmax_t\<close>, the type of the mask.
\<close>

function lz_loop :: "'a::len word \<Rightarrow> nat \<Rightarrow> nat \<Rightarrow> nat \<Rightarrow> nat option" where
  "lz_loop val len i count =
     (if i \<le> len then
        (case mask' 1 (len - i) of
           None \<Rightarrow> None
         | Some m \<Rightarrow>
             if m AND (static_cast (uint val) :: uintmax_t) \<noteq> 0 then Some count
             else lz_loop val len (i + 1) (count + 1))
      else Some count)"
  by pat_completeness auto
termination
  by (relation "measure (\<lambda>(val, len, i, count). len + 1 - i)") auto

declare lz_loop.simps [simp del]

definition leading_zeroes_count :: "'a::len word \<Rightarrow> nat option" where
  "leading_zeroes_count val =
     (if val = 0 then Some LENGTH('a) else lz_loop val LENGTH('a) 1 0)"

definition lzcnt :: "'a::len word \<Rightarrow> nat option" where
  "lzcnt val = leading_zeroes_count val"

text \<open>
  \<open>for (unsigned i = 0; i < len; i++) { if (mask(1, i) & value) break; count++; }\<close>
\<close>

function tz_loop :: "'a::len word \<Rightarrow> nat \<Rightarrow> nat \<Rightarrow> nat \<Rightarrow> nat option" where
  "tz_loop val len i count =
     (if i < len then
        (case mask' 1 i of
           None \<Rightarrow> None
         | Some m \<Rightarrow>
             if m AND (static_cast (uint val) :: uintmax_t) \<noteq> 0 then Some count
             else tz_loop val len (i + 1) (count + 1))
      else Some count)"
  by pat_completeness auto
termination
  by (relation "measure (\<lambda>(val, len, i, count). len - i)") auto

declare tz_loop.simps [simp del]

definition trailing_zeroes_count :: "'a::len word \<Rightarrow> nat option" where
  "trailing_zeroes_count val =
     (if val = 0 then Some LENGTH('a) else tz_loop val LENGTH('a) 0 0)"

definition tzcnt :: "'a::len word \<Rightarrow> nat option" where
  "tzcnt val = trailing_zeroes_count val"

section \<open>Operations on the lowest set or clear bit\<close>

text \<open>\<open>return value | static_cast<T>(~(value + 1));\<close>\<close>

definition isolate_lowest_clear_bit :: "'a::len word \<Rightarrow> 'a word" where
  "isolate_lowest_clear_bit val =
     val OR static_cast (arith_result TYPE('a) (NOT (arith_result TYPE('a) (uint val + 1))))"

text \<open>\<open>if (popcnt(value) == 0) { return 0; } return value | static_cast<T>(value - 1);\<close>\<close>

definition fill_from_lowest_set_bit :: "'a::len word \<Rightarrow> 'a word" where
  "fill_from_lowest_set_bit val =
     (if popcnt val = 0 then 0
      else val OR static_cast (arith_result TYPE('a) (uint val - 1)))"

text \<open>\<open>return value & static_cast<T>(value - 1);\<close>\<close>

definition clear_lowest_set_bit :: "'a::len word \<Rightarrow> 'a word" where
  "clear_lowest_set_bit val = val AND static_cast (arith_result TYPE('a) (uint val - 1))"

text \<open>\<open>return value | static_cast<T>(value + 1);\<close>\<close>

definition set_lowest_clear_bit :: "'a::len word \<Rightarrow> 'a word" where
  "set_lowest_clear_bit val = val OR static_cast (arith_result TYPE('a) (uint val + 1))"

section \<open>Promotion and conversion\<close>

text \<open>
  Converting the result of promoted arithmetic back to \<open>T\<close> gives the same value
  as arithmetic modulo \<open>2 ^ W\<close>.
\<close>

lemma word_of_int_arith:
  "word_of_int (arith_result TYPE('a::len) k) = (word_of_int k :: 'a word)"
  by (simp add: arith_result_def bit_eq_iff bit_simps)

lemma static_cast_arith:
  "static_cast (arith_result TYPE('a::len) k) = (word_of_int k :: 'a word)"
  by (simp add: static_cast_def word_of_int_arith)

lemma count_body_eq: "count_body v = v AND (v - 1)"
  by (simp add: count_body_def static_cast_arith)

lemma clear_lowest_set_bit_eq: "clear_lowest_set_bit v = v AND (v - 1)"
  by (simp add: clear_lowest_set_bit_def static_cast_arith)

lemma set_lowest_clear_bit_eq: "set_lowest_clear_bit v = v OR (v + 1)"
  by (simp add: set_lowest_clear_bit_def static_cast_arith)

section \<open>The lowest set bit\<close>

lemma lowest_set_bit_ex:
  fixes v :: "'a::len word"
  assumes "v \<noteq> 0"
  shows "\<exists>k. bit v k \<and> (\<forall>j<k. \<not> bit v j)"
proof -
  from assms obtain n where "bit v n"
    by (auto simp: bit_eq_iff)
  then show ?thesis
    using exists_least_iff [of "bit v"] by auto
qed

lemma bit_decr_lowest:
  fixes v :: "'a::len word"
  assumes k: "bit v k" and low: "\<forall>j<k. \<not> bit v j"
  shows "bit (v - 1) n \<longleftrightarrow> n < LENGTH('a) \<and> (n < k \<or> (k < n \<and> bit v n))"
proof -
  define w where "w = v AND NOT (mask (Suc k))"
  have kl: "k < LENGTH('a)"
    using k by (rule bit_imp_le_length)
  have bw: "bit w m \<longleftrightarrow> k < m \<and> bit v m" for m
    unfolding w_def by (auto simp: bit_and_iff bit_not_iff bit_mask_iff dest: bit_imp_le_length)
  have "v = w OR 2 ^ k"
  proof (rule bit_eqI)
    fix m
    show "bit v m \<longleftrightarrow> bit (w OR 2 ^ k) m"
      using k low kl by (cases m k rule: linorder_cases) (auto simp: bit_or_iff bit_exp_iff bw)
  qed
  also have "\<dots> = w + 2 ^ k"
    by (rule disjunctive_add [symmetric]) (auto simp: bit_exp_iff bw)
  finally have "v - 1 = w + mask k"
    by (simp add: mask_eq_exp_minus_1)
  also have "\<dots> = w OR mask k"
    by (rule disjunctive_add) (auto simp: bit_mask_iff bw)
  finally show ?thesis
    using kl by (auto simp: bit_or_iff bit_mask_iff bw dest: bit_imp_le_length)
qed

lemma bit_and_decr_lowest:
  fixes v :: "'a::len word"
  assumes "bit v k" and "\<forall>j<k. \<not> bit v j"
  shows "bit (v AND (v - 1)) n \<longleftrightarrow> bit v n \<and> n \<noteq> k"
  using assms by (auto simp: bit_and_iff bit_decr_lowest [OF assms] dest: bit_imp_le_length)

lemma bit_or_decr_lowest:
  fixes v :: "'a::len word"
  assumes "bit v k" and "\<forall>j<k. \<not> bit v j"
  shows "bit (v OR (v - 1)) n \<longleftrightarrow> bit v n \<or> n \<le> k"
  using assms by (auto simp: bit_or_iff bit_decr_lowest [OF assms] dest: bit_imp_le_length)

lemma finite_bits: "finite {n. bit (v :: 'a::len word) n}"
proof (rule finite_subset)
  show "{n. bit v n} \<subseteq> {..<LENGTH('a)}"
    by (auto dest: bit_imp_le_length)
qed simp

lemma card_bits_step:
  fixes v :: "'a::len word"
  assumes "v \<noteq> 0"
  shows "card {n. bit v n} = Suc (card {n. bit (v AND (v - 1)) n})"
proof -
  from assms obtain k where k: "bit v k" "\<forall>j<k. \<not> bit v j"
    using lowest_set_bit_ex by blast
  have "{n. bit v n} = insert k {n. bit (v AND (v - 1)) n}"
    using k by (auto simp: bit_and_decr_lowest [OF k])
  moreover have "k \<notin> {n. bit (v AND (v - 1)) n}"
    by (simp add: bit_and_decr_lowest [OF k])
  ultimately show ?thesis
    by (simp add: finite_bits)
qed

lemma count_loop_card: "count_loop v c = c + card {n. bit v n}"
proof (induction v c rule: count_loop.induct)
  case (1 val count)
  show ?case
  proof (cases "val = 0")
    case True
    then show ?thesis by (simp add: count_loop.simps [of 0])
  next
    case False
    have "count_loop val count = count_loop (count_body val) (count + 1)"
      using False by (simp add: count_loop.simps [of val])
    also have "\<dots> = (count + 1) + card {n. bit (count_body val) n}"
      using False by (rule "1.IH")
    also have "\<dots> = count + card {n. bit val n}"
      using False by (simp add: card_bits_step count_body_eq)
    finally show ?thesis .
  qed
qed

lemma count_bits_set_card: "count_bits_set v = card {n. bit v n}"
  by (simp add: count_bits_set_def count_loop_card)

section \<open>The counting loop\<close>

lemma count_body_less:
  fixes v :: "'a::len word"
  assumes "v \<noteq> 0"
  shows "count_body v < v"
proof -
  have "count_body v \<le> v - 1"
    by (simp add: count_body_eq word_and_le1)
  also have "v - 1 < v"
    using assms by (simp add: word_less_nat_alt measure_unat)
  finally show ?thesis .
qed

lemma count_body_iterates:
  fixes v :: "'a::len word"
  shows "(count_body ^^ card {n. bit v n}) v = 0
    \<and> (\<forall>m<card {n. bit v n}. (count_body ^^ m) v \<noteq> 0)"
proof (induction v rule: measure_induct_rule [where f = unat])
  case (less v)
  show ?case
  proof (cases "v = 0")
    case True
    then show ?thesis by simp
  next
    case False
    have c: "card {n. bit v n} = Suc (card {n. bit (count_body v) n})"
      using False by (simp add: card_bits_step count_body_eq)
    have "unat (count_body v) < unat v"
      using count_body_less [OF False] by (simp add: word_less_nat_alt)
    then have ih: "(count_body ^^ card {n. bit (count_body v) n}) (count_body v) = 0"
      "\<And>m. m < card {n. bit (count_body v) n} \<Longrightarrow> (count_body ^^ m) (count_body v) \<noteq> 0"
      using less.IH [of "count_body v"] by auto
    have "(count_body ^^ m) v \<noteq> 0" if "m < card {n. bit v n}" for m
    proof (cases m)
      case 0
      then show ?thesis using False by simp
    next
      case (Suc m')
      then show ?thesis
        using that ih(2) [of m'] by (simp add: c funpow_swap1)
    qed
    then show ?thesis
      using ih(1) by (simp add: c funpow_swap1)
  qed
qed

lemma count_loop_dom_all:
  fixes v :: "'a::len word"
  shows "count_loop_dom (v, c)"
proof (induction v arbitrary: c rule: measure_induct_rule [where f = unat])
  case (less v)
  show ?case
  proof (rule count_loop.domintros)
    assume "v \<noteq> 0"
    then have "unat (count_body v) < unat v"
      using count_body_less [of v] by (simp add: word_less_nat_alt)
    then show "count_loop_dom (count_body v, Suc c)"
      by (rule less.IH)
  qed
qed

lemma card_bits_le: "card {n. bit (v :: 'a::len word) n} \<le> LENGTH('a)"
proof -
  have "card {n. bit v n} \<le> card {..<LENGTH('a)}"
    by (rule card_mono) (auto dest: bit_imp_le_length)
  then show ?thesis by simp
qed

lemma no_bits_iff: "(\<forall>n. \<not> bit (v :: 'a::len word) n) \<longleftrightarrow> v = 0"
proof
  assume "\<forall>n. \<not> bit v n"
  then show "v = 0"
    by (intro bit_eqI) simp
qed simp

lemma popcnt_zero_iff: "popcnt v = 0 \<longleftrightarrow> v = 0"
  by (simp add: popcnt_def count_bits_set_card finite_bits no_bits_iff)

section \<open>Masks and bit scans\<close>

lemma mask'_defined:
  assumes "bits < 64" and "shift < 64"
  shows "mask' bits shift = Some (push_bit shift (mask bits))"
proof -
  have "NOT (push_bit bits (- 1 :: uintmax_t)) = mask bits"
    by (rule bit_eqI) (auto simp: bit_not_iff bit_push_bit_iff bit_mask_iff)
  then show ?thesis
    using assms by (simp add: mask'_def shl_def static_cast_def)
qed

lemma mask'_undefined:
  assumes "64 \<le> bits \<or> 64 \<le> shift"
  shows "mask' bits shift = None"
  using assms by (auto simp: mask'_def shl_def)

lemma bit_mask':
  assumes "mask' bits shift = Some m"
  shows "bit m n \<longleftrightarrow> shift \<le> n \<and> n < shift + bits \<and> n < 64"
proof -
  have d: "bits < 64 \<and> shift < 64"
    using assms mask'_undefined [of bits shift] by (cases "bits < 64 \<and> shift < 64") auto
  then have "m = push_bit shift (mask bits)"
    using assms by (simp add: mask'_defined)
  then show ?thesis
    using d by (auto simp: bit_push_bit_iff bit_mask_iff)
qed

lemma mask'_one: "s < 64 \<Longrightarrow> mask' (Suc 0) s = Some (2 ^ s)"
  using mask'_defined [of 1 s] by (simp add: push_bit_eq_mult)

lemma test_bit:
  fixes val :: "'a::len word"
  shows "(2 ^ s AND (static_cast (uint val) :: uintmax_t) \<noteq> 0) \<longleftrightarrow> s < 64 \<and> bit val s"
proof -
  have "(2 ^ s AND (static_cast (uint val) :: uintmax_t) = 0) \<longleftrightarrow> \<not> bit (static_cast (uint val) :: uintmax_t) s"
    by (simp add: and.commute and_exp_eq_0_iff_not_bit)
  then show ?thesis
    by (auto simp: static_cast_def bit_ucast_iff dest: bit_imp_le_length)
qed

lemma tz_loop_finds:
  fixes val :: "'a::len word"
  assumes w: "LENGTH('a) \<le> 64" and k: "bit val k" and low: "\<forall>j<k. \<not> bit val j"
    and i: "i \<le> k"
  shows "tz_loop val LENGTH('a) i c = Some (c + (k - i))"
  using i
proof (induction "k - i" arbitrary: i c)
  case 0
  then have "i = k" by simp
  moreover have "k < LENGTH('a)"
    using k by (rule bit_imp_le_length)
  ultimately show ?case
    using w k by (subst tz_loop.simps) (simp add: mask'_one test_bit)
next
  case (Suc d)
  then have ik: "i < k" by simp
  have kl: "k < LENGTH('a)"
    using k by (rule bit_imp_le_length)
  have "\<not> bit val i"
    using low ik by simp
  then have "tz_loop val LENGTH('a) i c = tz_loop val LENGTH('a) (i + 1) (c + 1)"
    using w ik kl by (subst tz_loop.simps) (simp add: mask'_one test_bit)
  also have "\<dots> = Some (c + 1 + (k - (i + 1)))"
    using Suc.hyps(2) ik by (intro Suc.hyps(1)) auto
  finally show ?case
    using ik by simp
qed

lemma lz_loop_finds:
  fixes val :: "'a::len word"
  assumes w: "LENGTH('a) \<le> 64" and h: "bit val h"
    and high: "\<forall>j. h < j \<longrightarrow> \<not> bit val j"
    and i: "1 \<le> i" "i + h \<le> LENGTH('a)"
  shows "lz_loop val LENGTH('a) i c = Some (c + (LENGTH('a) - i - h))"
  using i
proof (induction "LENGTH('a) - i - h" arbitrary: i c)
  case 0
  have hl: "h < LENGTH('a)"
    using h by (rule bit_imp_le_length)
  from 0 have "LENGTH('a) - i = h" by simp
  then show ?case
    using w h hl 0 by (subst lz_loop.simps) (simp add: mask'_one test_bit)
next
  case (Suc d)
  have hl: "h < LENGTH('a)"
    using h by (rule bit_imp_le_length)
  from Suc have gt: "h < LENGTH('a) - i" by simp
  then have "\<not> bit val (LENGTH('a) - i)"
    using high by simp
  then have "lz_loop val LENGTH('a) i c = lz_loop val LENGTH('a) (i + 1) (c + 1)"
    using w gt Suc.prems by (subst lz_loop.simps) (simp add: mask'_one test_bit)
  also have "\<dots> = Some (c + 1 + (LENGTH('a) - (i + 1) - h))"
    using Suc.hyps(2) gt by (intro Suc.hyps(1)) auto
  finally show ?case
    using gt by simp
qed

lemma highest_set_bit_ex:
  fixes v :: "'a::len word"
  assumes "v \<noteq> 0"
  shows "\<exists>h. bit v h \<and> (\<forall>j. h < j \<longrightarrow> \<not> bit v j)"
proof -
  from assms have ne: "{n. bit v n} \<noteq> {}"
    using no_bits_iff [of v] by auto
  define h where "h = Max {n. bit v n}"
  have "h \<in> {n. bit v n}"
    unfolding h_def using finite_bits ne by (rule Max_in)
  moreover have "\<not> bit v j" if "h < j" for j
  proof
    assume "bit v j"
    then have "j \<le> h"
      unfolding h_def using finite_bits by (intro Max_ge) auto
    with that show False by simp
  qed
  ultimately show ?thesis by auto
qed

lemma zeroes_count_examples:
  "leading_zeroes_count (0b00001111 :: 8 word) = Some 4"
  "trailing_zeroes_count (0b00001100 :: 8 word) = Some 2"
  by (simp_all add: leading_zeroes_count_def trailing_zeroes_count_def lz_loop.simps
      tz_loop.simps mask'_def shl_def static_cast_def)

lemma bits_mask':
  assumes "mask' bits shift = Some m" and "bits + shift \<le> 64"
  shows "{n. bit m n} = {shift..<shift + bits}"
  using assms(2) by (auto simp: bit_mask' [OF assms(1)])

lemma count_mask_in_range:
  assumes "bits < 64" and "shift < 64" and "bits + shift \<le> 64"
  shows "map_option count_bits_set (mask' bits shift) = Some bits"
proof -
  obtain m where m: "mask' bits shift = Some m"
    using assms by (simp add: mask'_defined)
  then show ?thesis
    using bits_mask' [OF m assms(3)] by (simp add: count_bits_set_card)
qed

lemma set_bits_defined:
  assumes "bits < 64" and "shift < 64"
  shows "set_bits v bits shift = Some (v OR ucast (push_bit shift (mask bits :: uintmax_t)))"
  using assms by (simp add: set_bits_def mask'_defined static_cast_def)

lemma clear_bits_defined:
  assumes "bits < 64" and "shift < 64"
  shows "clear_bits v bits shift = Some (v AND NOT (ucast (push_bit shift (mask bits :: uintmax_t))))"
  using assms
  by (simp add: clear_bits_def mask'_defined static_cast_arith of_int_not_eq) (simp add: static_cast_def)

lemma clear_after_set:
  fixes v :: "'a::len word"
  assumes "bits < 64" and "shift < 64" and "bits + shift \<le> LENGTH('a)" and "LENGTH('a) \<le> 64"
  shows "\<exists>w r. set_bits v bits shift = Some w \<and> clear_bits w bits shift = Some r
    \<and> clear_bits v bits shift = Some r
    \<and> (\<forall>n. bit r n \<longleftrightarrow> bit v n \<and> \<not> (shift \<le> n \<and> n < shift + bits))"
proof -
  let ?m = "ucast (push_bit shift (mask bits :: uintmax_t)) :: 'a word"
  have "(v OR ?m) AND NOT ?m = v AND NOT ?m"
    by (rule bit_eqI) (auto simp: bit_and_iff bit_or_iff bit_not_iff)
  moreover have "bit (v AND NOT ?m) n \<longleftrightarrow> bit v n \<and> \<not> (shift \<le> n \<and> n < shift + bits)" for n
    using assms
    by (auto simp: bit_and_iff bit_not_iff bit_ucast_iff bit_push_bit_iff bit_mask_iff
        dest: bit_imp_le_length)
  ultimately show ?thesis
    using assms by (simp add: set_bits_defined clear_bits_defined)
qed

text \<open>
  Where both shifts are defined, \<open>mask(bits, shift)\<close> is \<open>((1 << bits) - 1) << shift\<close> at
  64 bits; its set bits are the positions from \<open>shift\<close> up to \<open>shift + bits - 1\<close> when
  these fit into 64 bits.
\<close>

lemma mask_formula:
  assumes "bits < 64" and "shift < 64"
  shows "\<exists>m. mask' bits shift = Some m
    \<and> m = push_bit shift (push_bit bits 1 - 1)
    \<and> (bits + shift \<le> 64 \<longrightarrow> (\<forall>n. bit m n \<longleftrightarrow> shift \<le> n \<and> n < shift + bits))
    \<and> (bits = 0 \<longrightarrow> m = 0)"
proof -
  have m: "mask' bits shift = Some (push_bit shift (mask bits))"
    using assms by (rule mask'_defined)
  have "(mask bits :: uintmax_t) = push_bit bits 1 - 1"
    by (simp add: mask_eq_exp_minus_1 push_bit_eq_mult)
  moreover have "bit (push_bit shift (mask bits :: uintmax_t)) n \<longleftrightarrow> shift \<le> n \<and> n < shift + bits"
    if "bits + shift \<le> 64" for n
    using that by (auto simp: bit_mask' [OF m])
  ultimately show ?thesis
    using m by auto
qed

lemma mask_formula_examples:
  "(2 :: nat) < 64 \<and> mask' 2 2 = Some 0b1100 \<and> mask' 0 2 = Some 0 \<and> mask' 63 1 = Some 0xFFFFFFFFFFFFFFFE"
proof -
  have "mask' 2 2 = Some 0b1100"
    using mask_formula [of 2 2] by (simp add: push_bit_eq_mult)
  moreover have "mask' 0 2 = Some 0"
    using mask_formula [of 0 2] by simp
  moreover have "mask' 63 1 = Some 0xFFFFFFFFFFFFFFFE"
    using mask_formula [of 63 1] by (simp add: push_bit_eq_mult)
  ultimately show ?thesis
    by simp
qed

section \<open>Claims\<close>

text \<open>
  C1. At \<open>bits = 64\<close>, the width of \<open>uintmax_t\<close>, and \<open>shift = 0\<close>, the first shift
  of \<open>mask\<close> has a count equal to the width of its operand, which C++ leaves undefined:
  \<open>count_bits_set(mask(64, 0))\<close> has no defined value, where 64 is expected. (Within
  \<open>bits < 64\<close>, \<open>shift < 64\<close> and \<open>bits + shift \<le> 64\<close> the count is \<open>bits\<close>:
  lemma \<open>count_mask_in_range\<close>.)
\<close>

theorem mask_full_width_undefined:
  "shl (static_cast (NOT 0) :: uintmax_t) 64 = None
    \<and> map_option count_bits_set (mask' 64 0) = None"
  by (simp add: mask'_def shl_def)

text \<open>
  C2. At \<open>bits = 64\<close>, the width of the return type, and \<open>shift = 0\<close>, the all-ones
  value is expected. The first shift of \<open>mask\<close> then has a count equal to the width of
  its operand, which C++ leaves undefined: \<open>mask(64, 0)\<close> has no defined value, and so is
  not the all-ones value \<open>((1 << 64) - 1) << 0\<close>. The second shift fails in the same way
  at \<open>bits = 0\<close>, \<open>shift = 64\<close>. (For \<open>bits < 64\<close> and \<open>shift < 64\<close> the formula
  holds, with exactly \<open>bits\<close> contiguous set bits from \<open>shift\<close> when
  \<open>bits + shift \<le> 64\<close>, and the all-zero value at \<open>bits = 0\<close>: lemma \<open>mask_formula\<close>.)
\<close>

theorem mask_full_width_not_all_ones:
  "mask' 64 0 = None
    \<and> mask' 64 0 \<noteq> Some (push_bit 0 (push_bit 64 1 - 1))
    \<and> mask' 64 0 \<noteq> Some (- 1)
    \<and> mask' 0 64 = None"
  by (simp add: mask'_def shl_def)

text \<open>
  C3. For every value of the unsigned type, \<open>count_bits_set\<close> returns the number of
  1-bits of the value, that is the number of bit positions \<open>n\<close> at which the value has
  a set bit; it returns 0 on zero and the width \<open>W\<close> on the all-ones value.
\<close>

theorem count_bits_set_counts_ones:
  fixes val :: "'a::len word"
  shows "count_bits_set val = card {n. bit val n}
    \<and> count_bits_set (0 :: 'a word) = 0
    \<and> count_bits_set (- 1 :: 'a word) = LENGTH('a)"
proof -
  have "{n. bit (- 1 :: 'a word) n} = {..<LENGTH('a)}"
    by (auto simp: bit_simps)
  then show ?thesis
    by (simp add: count_bits_set_card)
qed

text \<open>
  C4. \<open>leading_zeroes_count\<close> and \<open>trailing_zeroes_count\<close> return the width on 0,
  at every width. On a nonzero value of a type no wider than \<open>uintmax_t\<close>,
  \<open>trailing_zeroes_count\<close> returns the position \<open>k\<close> of the lowest set bit, so the
  \<open>k\<close> bits below it are clear, and \<open>leading_zeroes_count\<close> returns the number
  \<open>k\<close> of clear bits above the highest set bit, which sits at position \<open>W - 1 - k\<close>.
\<close>

theorem zero_counts:
  fixes val :: "'a::len word"
  shows "leading_zeroes_count (0 :: 'a word) = Some LENGTH('a)
    \<and> trailing_zeroes_count (0 :: 'a word) = Some LENGTH('a)
    \<and> (LENGTH('a) \<le> 64 \<and> val \<noteq> 0 \<longrightarrow>
         (\<exists>k<LENGTH('a). trailing_zeroes_count val = Some k
            \<and> bit val k \<and> (\<forall>j<k. \<not> bit val j))
       \<and> (\<exists>k<LENGTH('a). leading_zeroes_count val = Some k
            \<and> bit val (LENGTH('a) - 1 - k) \<and> (\<forall>j<k. \<not> bit val (LENGTH('a) - 1 - j))))"
proof -
  have tz: "\<exists>k<LENGTH('a). trailing_zeroes_count val = Some k
            \<and> bit val k \<and> (\<forall>j<k. \<not> bit val j)"
    if w: "LENGTH('a) \<le> 64" and nz: "val \<noteq> 0"
  proof -
    from nz obtain k where k: "bit val k" "\<forall>j<k. \<not> bit val j"
      using lowest_set_bit_ex by blast
    have "trailing_zeroes_count val = Some k"
      using nz tz_loop_finds [OF w k, of 0 0] by (simp add: trailing_zeroes_count_def)
    moreover have "k < LENGTH('a)"
      using k(1) by (rule bit_imp_le_length)
    ultimately show ?thesis
      using k by blast
  qed
  have lz: "\<exists>k<LENGTH('a). leading_zeroes_count val = Some k
            \<and> bit val (LENGTH('a) - 1 - k) \<and> (\<forall>j<k. \<not> bit val (LENGTH('a) - 1 - j))"
    if w: "LENGTH('a) \<le> 64" and nz: "val \<noteq> 0"
  proof -
    from nz obtain h where h: "bit val h" "\<forall>j. h < j \<longrightarrow> \<not> bit val j"
      using highest_set_bit_ex by blast
    have hl: "h < LENGTH('a)"
      using h(1) by (rule bit_imp_le_length)
    define k where "k = LENGTH('a) - 1 - h"
    have "leading_zeroes_count val = Some k"
      using nz hl lz_loop_finds [OF w h, of 1 0] by (simp add: leading_zeroes_count_def k_def)
    moreover have "k < LENGTH('a)"
      unfolding k_def using hl by simp
    moreover have "LENGTH('a) - 1 - k = h"
      unfolding k_def using hl by simp
    moreover have "\<not> bit val (LENGTH('a) - 1 - j)" if "j < k" for j
      using that h(2) hl unfolding k_def by (intro h(2) [rule_format]) simp
    ultimately show ?thesis
      using h(1) by auto
  qed
  show ?thesis
    using tz lz by (simp add: leading_zeroes_count_def trailing_zeroes_count_def)
qed

theorem zero_counts_witness:
  "LENGTH(8) \<le> 64 \<and> (0b00101100 :: 8 word) \<noteq> 0
    \<and> leading_zeroes_count (0 :: 8 word) = Some 8
    \<and> trailing_zeroes_count (0 :: 8 word) = Some 8
    \<and> trailing_zeroes_count (0b00101100 :: 8 word) = Some 2
    \<and> bit (0b00101100 :: 8 word) 2
    \<and> leading_zeroes_count (0b00101100 :: 8 word) = Some 2
    \<and> bit (0b00101100 :: 8 word) (8 - 1 - 2)"
proof -
  note t = zero_counts [of "0b00101100 :: 8 word"]
  have pre: "LENGTH(8) \<le> 64 \<and> (0b00101100 :: 8 word) \<noteq> 0"
    by simp
  have tz: "trailing_zeroes_count (0b00101100 :: 8 word) = Some 2"
    by (simp add: trailing_zeroes_count_def tz_loop.simps mask'_def shl_def static_cast_def)
  have lz: "leading_zeroes_count (0b00101100 :: 8 word) = Some 2"
    by (simp add: leading_zeroes_count_def lz_loop.simps mask'_def shl_def static_cast_def)
  from t pre have "\<exists>k<LENGTH(8). trailing_zeroes_count (0b00101100 :: 8 word) = Some k
      \<and> bit (0b00101100 :: 8 word) k \<and> (\<forall>j<k. \<not> bit (0b00101100 :: 8 word) j)"
    by blast
  then have a: "bit (0b00101100 :: 8 word) 2"
    unfolding tz by auto
  from t pre have "\<exists>k<LENGTH(8). leading_zeroes_count (0b00101100 :: 8 word) = Some k
      \<and> bit (0b00101100 :: 8 word) (LENGTH(8) - 1 - k)
      \<and> (\<forall>j<k. \<not> bit (0b00101100 :: 8 word) (LENGTH(8) - 1 - j))"
    by blast
  then have b: "bit (0b00101100 :: 8 word) (8 - 1 - 2)"
    unfolding lz by auto
  from t have "leading_zeroes_count (0 :: 8 word) = Some 8 \<and> trailing_zeroes_count (0 :: 8 word) = Some 8"
    by simp
  with a b tz lz show ?thesis
    by simp
qed

text \<open>
  C5. At the 64-bit type with \<open>bits = 64\<close> and \<open>shift = 0\<close>, which is within the width,
  \<open>set_bits\<close> and \<open>clear_bits\<close> call \<open>mask(64, 0)\<close>, whose shift is undefined: neither
  has a defined value. (For \<open>bits < 64\<close> and \<open>shift < 64\<close> within the width of the type,
  clearing after setting equals clearing and clears exactly the positions of the mask:
  lemma \<open>clear_after_set\<close>.)
\<close>

theorem set_bits_full_width_undefined:
  "set_bits (0 :: 64 word) 64 0 = None \<and> clear_bits (0 :: 64 word) 64 0 = None"
  by (simp add: set_bits_def clear_bits_def mask'_def shl_def)

text \<open>
  C6. For every value, \<open>isolate_lowest_clear_bit\<close> equals \<open>value | ~(value + 1)\<close>
  in arithmetic modulo \<open>2 ^ W\<close>, whether or not the operand is promoted to \<open>int\<close>;
  at 8 bits, \<open>0b11100011\<close> is mapped to \<open>0b11111011\<close>.
\<close>

theorem isolate_lowest_clear_bit_formula:
  "isolate_lowest_clear_bit val = val OR NOT (val + 1)
   \<and> isolate_lowest_clear_bit (0b11100011 :: 8 word) = 0b11111011"
proof -
  have eq: "isolate_lowest_clear_bit w = w OR NOT (w + 1)" for w :: "'b::len word"
    by (simp add: isolate_lowest_clear_bit_def static_cast_arith of_int_not_eq word_of_int_arith)
  have "isolate_lowest_clear_bit (0b11100011 :: 8 word) = 0b11111011"
    unfolding eq by simp
  with eq show ?thesis
    by simp
qed

text \<open>
  C7. \<open>fill_from_lowest_set_bit\<close> returns 0 on 0. On a nonzero value it returns
  \<open>value | (value - 1)\<close>, and when \<open>k\<close> is the position of the lowest set bit, the
  result has every bit up to and including \<open>k\<close> set and agrees with the value above.
\<close>

theorem fill_from_lowest_set_bit_fills:
  fixes val :: "'a::len word"
  shows "fill_from_lowest_set_bit (0 :: 'a word) = 0
    \<and> (val \<noteq> 0 \<longrightarrow> fill_from_lowest_set_bit val = val OR (val - 1))
    \<and> (bit val k \<and> (\<forall>j<k. \<not> bit val j) \<longrightarrow>
         (\<forall>n. bit (fill_from_lowest_set_bit val) n \<longleftrightarrow> n \<le> k \<or> bit val n))"
proof -
  have eq: "fill_from_lowest_set_bit v = (if v = 0 then 0 else v OR (v - 1))" for v :: "'a word"
    by (simp add: fill_from_lowest_set_bit_def popcnt_zero_iff static_cast_arith)
  have "bit (fill_from_lowest_set_bit val) n \<longleftrightarrow> n \<le> k \<or> bit val n"
    if "bit val k" "\<forall>j<k. \<not> bit val j" for n
  proof -
    from that(1) have "val \<noteq> 0" by auto
    then show ?thesis
      using bit_or_decr_lowest [OF that, of n] by (auto simp: eq)
  qed
  then show ?thesis
    by (simp add: eq)
qed

theorem fill_from_lowest_set_bit_fills_witness:
  "(0b01110100 :: 8 word) \<noteq> 0
    \<and> fill_from_lowest_set_bit (0b01110100 :: 8 word) = 0b01110111
    \<and> bit (0b01110100 :: 8 word) 2
    \<and> \<not> bit (0b01110100 :: 8 word) 1 \<and> \<not> bit (0b01110100 :: 8 word) 0
    \<and> bit (fill_from_lowest_set_bit (0b01110100 :: 8 word)) 1
    \<and> bit (fill_from_lowest_set_bit (0b01110100 :: 8 word)) 4
    \<and> \<not> bit (fill_from_lowest_set_bit (0b01110100 :: 8 word)) 3"
proof -
  note t = fill_from_lowest_set_bit_fills [of "0b01110100 :: 8 word" 2]
  have low: "\<forall>j<2. \<not> bit (0b01110100 :: 8 word) j"
    by (simp add: less_Suc_eq numeral_2_eq_2)
  have k: "bit (0b01110100 :: 8 word) 2"
    by simp
  from t have v: "fill_from_lowest_set_bit (0b01110100 :: 8 word) = 0b01110111"
    by simp
  from t low k
  have b: "bit (fill_from_lowest_set_bit (0b01110100 :: 8 word)) n \<longleftrightarrow> n \<le> 2 \<or> bit (0b01110100 :: 8 word) n" for n
    by blast
  have "bit (fill_from_lowest_set_bit (0b01110100 :: 8 word)) 1"
    unfolding b by simp
  moreover have "bit (fill_from_lowest_set_bit (0b01110100 :: 8 word)) 4"
    unfolding b by simp
  moreover have "\<not> bit (fill_from_lowest_set_bit (0b01110100 :: 8 word)) 3"
    unfolding b by simp
  ultimately show ?thesis
    using k v by simp
qed

text \<open>
  C8. For every nonzero value, the population count is positive and clearing the lowest
  set bit lowers it by exactly one.
\<close>

theorem clear_lowest_set_bit_drops_one:
  fixes val :: "'a::len word"
  assumes "val \<noteq> 0"
  shows "0 < count_bits_set val
    \<and> count_bits_set (clear_lowest_set_bit val) = count_bits_set val - 1"
  using assms by (simp add: count_bits_set_card clear_lowest_set_bit_eq card_bits_step)

theorem clear_lowest_set_bit_drops_one_witness:
  "(12 :: 8 word) \<noteq> 0 \<and> 0 < count_bits_set (12 :: 8 word)
    \<and> count_bits_set (clear_lowest_set_bit (12 :: 8 word)) = count_bits_set (12 :: 8 word) - 1"
  using clear_lowest_set_bit_drops_one [of "12 :: 8 word"] by simp

text \<open>
  C9. As unsigned integers, \<open>clear_lowest_set_bit value\<close> is at most \<open>value\<close> and
  \<open>set_lowest_clear_bit value\<close> is at least \<open>value\<close>. The wrap-around of
  \<open>value - 1\<close> at zero and of \<open>value + 1\<close> at all-ones does no harm: both
  operations leave these two values unchanged.
\<close>

theorem lowest_bit_updates_bounded:
  fixes val :: "'a::len word"
  shows "clear_lowest_set_bit val \<le> val \<and> val \<le> set_lowest_clear_bit val
    \<and> clear_lowest_set_bit (0 :: 'a word) = 0
    \<and> set_lowest_clear_bit (- 1 :: 'a word) = - 1"
  by (simp add: clear_lowest_set_bit_eq set_lowest_clear_bit_eq word_and_le2 le_word_or2)

text \<open>
  C10. The loop of \<open>count_bits_set\<close> terminates on every input. Its body maps a nonzero
  value to a strictly smaller one; iterating the body from \<open>value\<close> reaches zero after
  exactly \<open>count_bits_set value\<close> steps, which is at most the width, and not before; and
  every argument lies in the domain of the recursion that embeds the loop.
\<close>

theorem count_bits_set_terminates:
  fixes val :: "'a::len word"
  shows "(val \<noteq> 0 \<longrightarrow> count_body val < val)
    \<and> (count_body ^^ count_bits_set val) val = 0
    \<and> (\<forall>m<count_bits_set val. (count_body ^^ m) val \<noteq> 0)
    \<and> count_bits_set val \<le> LENGTH('a)
    \<and> count_loop_dom (val, count)"
  using count_body_iterates [of val]
  by (simp add: count_body_less count_bits_set_card card_bits_le count_loop_dom_all)

theorem count_bits_set_terminates_witness:
  "(12 :: 8 word) \<noteq> 0 \<and> count_body (12 :: 8 word) < 12
    \<and> count_bits_set (12 :: 8 word) = 2
    \<and> (count_body ^^ 2) (12 :: 8 word) = 0
    \<and> (count_body ^^ 1) (12 :: 8 word) \<noteq> 0"
proof -
  note t = count_bits_set_terminates [of "12 :: 8 word" 0]
  have c: "count_bits_set (12 :: 8 word) = 2"
    by (simp add: count_bits_set_def count_loop.simps count_body_eq)
  from t have "count_body (12 :: 8 word) < 12"
    by simp
  moreover from t have "(count_body ^^ 2) (12 :: 8 word) = 0"
    unfolding c by blast
  moreover from t have "\<forall>m<2. (count_body ^^ m) (12 :: 8 word) \<noteq> 0"
    unfolding c by blast
  then have "(count_body ^^ 1) (12 :: 8 word) \<noteq> 0"
    by (rule allE [of _ 1]) simp
  ultimately show ?thesis
    using c by simp
qed

end
